theory Spec2Isabelle
  imports Main "HOL-Library.Word"
begin

unbundle bit_operations_syntax

section \<open>Data model\<close>

text \<open>
  Python \<^verbatim>\<open>bytes\<close> values are lists of 8-bit words. Python integers are unbounded,
  so indices are \<^typ>\<open>int\<close>. A tree is the list of its levels, leaves first; a proof is a
  list of (sibling, position) pairs where the position is the Python string
  \<^verbatim>\<open>"right"\<close> or \<^verbatim>\<open>"left"\<close>.
\<close>

type_synonym byte = "8 word"
type_synonym bytes = "byte list"
type_synonym tree = "bytes list list"
type_synonym proof_step = "bytes \<times> string"

text \<open>
  \<^verbatim>\<open>Web3.keccak\<close> is a library function, not code of this repository. Every operation
  that hashes takes the hash function as its first argument.
\<close>

type_synonym hashfn = "bytes \<Rightarrow> bytes"

text \<open>The Python exceptions the modelled code can raise.\<close>

datatype error =
    ValueError string
  | IndexError
  | OverflowError
  | TypeError
  | SystemExit int

section \<open>Python primitives used by the source\<close>

text \<open>
  \<^verbatim>\<open>xs[i]\<close>: a negative index counts from the end, and an index outside
  \<^verbatim>\<open>[-len(xs), len(xs))\<close> raises \<^verbatim>\<open>IndexError\<close>.
\<close>

definition getitem :: "'a list \<Rightarrow> int \<Rightarrow> error + 'a" where
  "getitem xs i =
     (if 0 \<le> i \<and> i < int (length xs) then Inr (xs ! nat i)
      else if i < 0 \<and> - int (length xs) \<le> i then Inr (xs ! nat (int (length xs) + i))
      else Inl IndexError)"

section \<open>Merkle engine\<close>

text \<open>\<^verbatim>\<open>def pad32(b): return b.rjust(32, b"\x00")\<close>\<close>

definition pad32 :: "bytes \<Rightarrow> bytes" where
  "pad32 b = replicate (32 - length b) 0 @ b"

text \<open>\<^verbatim>\<open>def keccak_pair(l, r): return Web3.keccak(l + r)\<close>\<close>

definition keccak_pair :: "hashfn \<Rightarrow> bytes \<Rightarrow> bytes \<Rightarrow> bytes" where
  "keccak_pair keccak l r = keccak (l @ r)"

text \<open>
  The inner loop of \<^verbatim>\<open>build_merkle_tree\<close>:
  \<^verbatim>\<open>
  for i in range(0, len(level), 2):
      L = level[i]
      R = level[i + 1] if i + 1 < len(level) else level[i]
      nxt.append(keccak_pair(L, R))
  \<close>
  with the loop variable \<open>i\<close> and the accumulator \<open>nxt\<close> as arguments. Inside the
  loop \<open>i < len(level)\<close>, so no read is out of range.
\<close>

function pair_loop :: "hashfn \<Rightarrow> bytes list \<Rightarrow> nat \<Rightarrow> bytes list \<Rightarrow> bytes list" where
  "pair_loop keccak level i nxt =
     (if i < length level then
        (let L = level ! i;
             R = (if i + 1 < length level then level ! (i + 1) else level ! i)
         in pair_loop keccak level (i + 2) (nxt @ [keccak_pair keccak L R]))
      else nxt)"
  by pat_completeness auto
termination
  by (relation "measure (\<lambda>(keccak, level, i, nxt). length level - i)") auto

declare pair_loop.simps [simp del]

text \<open>
  The outer loop of \<^verbatim>\<open>build_merkle_tree\<close>:
  \<^verbatim>\<open>
  while len(level) > 1:
      nxt = [] ...
      tree.append(nxt)
      level = nxt
  return tree
  \<close>
\<close>

function build_loop :: "hashfn \<Rightarrow> bytes list \<Rightarrow> tree \<Rightarrow> tree" where
  "build_loop keccak level tree =
     (if length level > 1 then
        (let nxt = pair_loop keccak level 0 []
         in build_loop keccak nxt (tree @ [nxt]))
      else tree)"
  by pat_completeness auto
termination
proof (relation "measure (\<lambda>(keccak, level, tree). length level)")
  show "wf (measure (\<lambda>(keccak, level, tree). length level))"
    by simp
next
  fix keccak :: hashfn and level :: "bytes list" and tree :: tree and nxt :: "bytes list"
  assume len: "1 < length level" and nxt: "nxt = pair_loop keccak level 0 []"
  have halves: "length (pair_loop keccak level i acc) = length acc + (length level - i + 1) div 2"
    for i acc
  proof (induction keccak level i acc rule: pair_loop.induct)
    case (1 keccak level i acc)
    show ?case
    proof (cases "i < length level")
      case True
      have "(length level - i + 1) div 2 = (length level - (i + 2) + 1) div 2 + 1"
        using True by arith
      with True "1.IH" show ?thesis
        by (subst pair_loop.simps) (simp add: Let_def)
    next
      case False
      then show ?thesis
        by (subst pair_loop.simps) simp
    qed
  qed
  have "(length level + 1) div 2 < length level"
    using len by arith
  then show "((keccak, nxt, tree @ [nxt]), (keccak, level, tree))
      \<in> measure (\<lambda>(keccak, level, tree). length level)"
    by (simp add: nxt halves)
qed

declare build_loop.simps [simp del]

text \<open>
  \<^verbatim>\<open>
  def build_merkle_tree(leaves):
      if not leaves:
          raise ValueError("No leaves to build a tree")
      level = [pad32(x) for x in leaves]
      tree = [level]
      while ...
  \<close>
\<close>

definition build_merkle_tree :: "hashfn \<Rightarrow> bytes list \<Rightarrow> error + tree" where
  "build_merkle_tree keccak leaves =
     (if leaves = [] then Inl (ValueError ''No leaves to build a tree'')
      else (let level = map pad32 leaves in Inr (build_loop keccak level [level])))"

text \<open>\<^verbatim>\<open>def merkle_root(tree): return tree[-1][0]\<close>\<close>

definition merkle_root :: "tree \<Rightarrow> error + bytes" where
  "merkle_root tree =
     (case getitem tree (- 1) of
        Inl e \<Rightarrow> Inl e
      | Inr lvl \<Rightarrow> getitem lvl 0)"

text \<open>
  The loop of \<^verbatim>\<open>merkle_proof\<close> over the levels, with \<open>idx\<close> and \<open>proof\<close> as state:
  \<^verbatim>\<open>
  sib_idx = idx ^ 1
  sibling = level[sib_idx] if sib_idx < len(level) else level[idx]
  pos = "right" if idx % 2 == 0 else "left"
  proof.append((sibling, pos))
  idx //= 2
  \<close>
  \<open>^\<close>, \<open>%\<close> and \<open>//\<close> on Python integers are \<open>XOR\<close>, \<open>mod\<close> and \<open>div\<close> on
  \<^typ>\<open>int\<close> (two's complement, floor division).
\<close>

fun proof_loop :: "tree \<Rightarrow> int \<Rightarrow> proof_step list \<Rightarrow> error + proof_step list" where
  "proof_loop [] idx prf = Inr prf"
| "proof_loop (level # rest) idx prf =
     (let sib_idx = idx XOR 1 in
      case (if sib_idx < int (length level) then getitem level sib_idx
            else getitem level idx) of
        Inl e \<Rightarrow> Inl e
      | Inr sibling \<Rightarrow>
          (let pos = (if idx mod 2 = 0 then ''right'' else ''left'')
           in proof_loop rest (idx div 2) (prf @ [(sibling, pos)])))"

text \<open>\<^verbatim>\<open>for level in tree[:-1]\<close>: every level but the last.\<close>

definition merkle_proof :: "tree \<Rightarrow> int \<Rightarrow> error + proof_step list" where
  "merkle_proof tree index = proof_loop (butlast tree) index []"

text \<open>
  \<^verbatim>\<open>
  def verify_proof(leaf, proof, root):
      cur = pad32(leaf)
      for sib, pos in proof:
          sib = pad32(sib)
          cur = keccak_pair(cur, sib) if pos == "right" else keccak_pair(sib, cur)
      return cur == root
  \<close>
\<close>

fun verify_loop :: "hashfn \<Rightarrow> bytes \<Rightarrow> proof_step list \<Rightarrow> bytes" where
  "verify_loop keccak cur [] = cur"
| "verify_loop keccak cur ((sib, pos) # rest) =
     (let sib' = pad32 sib
      in verify_loop keccak
           (if pos = ''right'' then keccak_pair keccak cur sib'
            else keccak_pair keccak sib' cur) rest)"

definition verify_proof :: "hashfn \<Rightarrow> bytes \<Rightarrow> proof_step list \<Rightarrow> bytes \<Rightarrow> bool" where
  "verify_proof keccak leaf prf root = (verify_loop keccak (pad32 leaf) prf = root)"

section \<open>Leaf encoder\<close>

text \<open>
  Library primitives used by \<^verbatim>\<open>build_event_leaf\<close>, modelled from the Python, hexbytes
  and web3 documentation. The repository pins no version of these libraries, so the two
  behaviours that differ between their versions are both modelled.

  \<^verbatim>\<open>bytes.hex()\<close>: two lowercase hexadecimal digits per byte (the digits \<^verbatim>\<open>0\<close> to
  \<^verbatim>\<open>9\<close> are the characters 48 to 57, \<^verbatim>\<open>a\<close> to \<^verbatim>\<open>f\<close> are 97 to 102).
\<close>

definition hexdigit :: "nat \<Rightarrow> char" where
  "hexdigit n = (if n < 10 then char_of (48 + n) else char_of (87 + n))"

definition bytes_hex :: "bytes \<Rightarrow> string" where
  "bytes_hex b = concat (map (\<lambda>w. [hexdigit (unat w div 16), hexdigit (unat w mod 16)]) b)"

text \<open>
  \<^verbatim>\<open>HexBytes.hex()\<close>: hexbytes before 1.0 puts \<^verbatim>\<open>0x\<close> in front of the digits
  (\<open>Prefixed\<close>); from 1.0 on it returns the digits alone, as \<^verbatim>\<open>bytes.hex()\<close> does
  (\<open>Plain\<close>).
\<close>

datatype hexbytes_version = Prefixed | Plain

definition HexBytes_hex :: "hexbytes_version \<Rightarrow> bytes \<Rightarrow> string" where
  "HexBytes_hex ver b = (case ver of Prefixed \<Rightarrow> ''0x'' @ bytes_hex b | Plain \<Rightarrow> bytes_hex b)"

text \<open>
  A Python value that is a \<^verbatim>\<open>str\<close> or a \<^verbatim>\<open>bytes\<close> (\<^verbatim>\<open>HexBytes\<close> is a subclass of
  \<^verbatim>\<open>bytes\<close>), and the slice \<^verbatim>\<open>x[2:]\<close>, which keeps the type.
\<close>

datatype pyvalue = Str string | Bytes bytes

fun slice_from :: "nat \<Rightarrow> pyvalue \<Rightarrow> pyvalue" where
  "slice_from k (Str s) = Str (drop k s)"
| "slice_from k (Bytes b) = Bytes (drop k b)"

text \<open>
  \<^verbatim>\<open>bytes.fromhex(x)\<close>: \<^verbatim>\<open>TypeError\<close> unless \<open>x\<close> is a \<^verbatim>\<open>str\<close>. On a string: two
  hexadecimal digits per byte, either case; ASCII whitespace between bytes is skipped;
  anything else raises \<^verbatim>\<open>ValueError\<close> (the position that the message of the exception
  carries is left out).
\<close>

definition hexval :: "char \<Rightarrow> nat option" where
  "hexval c =
     (let n = (of_char c :: nat)
      in if 48 \<le> n \<and> n \<le> 57 then Some (n - 48)
         else if 97 \<le> n \<and> n \<le> 102 then Some (n - 87)
         else if 65 \<le> n \<and> n \<le> 70 then Some (n - 55)
         else None)"

definition isspace :: "char \<Rightarrow> bool" where
  "isspace c = (let n = (of_char c :: nat) in n = 32 \<or> (9 \<le> n \<and> n \<le> 13))"

definition fromhex_error :: error where
  "fromhex_error = ValueError ''non-hexadecimal number found in fromhex() arg''"

fun fromhex_digits :: "string \<Rightarrow> error + bytes" where
  "fromhex_digits [] = Inr []"
| "fromhex_digits [c] = (if isspace c then Inr [] else Inl fromhex_error)"
| "fromhex_digits (c # d # rest) =
     (if isspace c then fromhex_digits (d # rest)
      else (case (hexval c, hexval d) of
              (Some h, Some l) \<Rightarrow>
                (case fromhex_digits rest of
                   Inl e \<Rightarrow> Inl e
                 | Inr bs \<Rightarrow> Inr (of_nat (16 * h + l) # bs))
            | _ \<Rightarrow> Inl fromhex_error))"

fun bytes_fromhex :: "pyvalue \<Rightarrow> error + bytes" where
  "bytes_fromhex (Str s) = fromhex_digits s"
| "bytes_fromhex (Bytes b) = Inl TypeError"

text \<open>
  \<^verbatim>\<open>n.to_bytes(length, "big")\<close> (unsigned): \<^verbatim>\<open>OverflowError\<close> when \<open>n\<close> is negative or
  needs more than \<open>length\<close> bytes; otherwise the base-256 digits of \<open>n\<close>, most
  significant first. \<^verbatim>\<open>int.from_bytes(b, "big")\<close> is its inverse.
\<close>

fun big_endian :: "nat \<Rightarrow> int \<Rightarrow> bytes" where
  "big_endian 0 n = []"
| "big_endian (Suc k) n = big_endian k (n div 256) @ [word_of_int n]"

definition int_to_bytes :: "int \<Rightarrow> nat \<Rightarrow> error + bytes" where
  "int_to_bytes n len =
     (if n < 0 \<or> 2 ^ (8 * len) \<le> n then Inl OverflowError else Inr (big_endian len n))"

definition int_from_bytes :: "bytes \<Rightarrow> int" where
  "int_from_bytes b = foldl (\<lambda>acc w. acc * 256 + uint w) 0 b"

text \<open>
  A log entry as \<^verbatim>\<open>w3.eth.get_logs\<close> returns it: \<^verbatim>\<open>transactionHash\<close> and the topics
  are \<^verbatim>\<open>HexBytes\<close> and \<^verbatim>\<open>logIndex\<close> is an integer. \<^verbatim>\<open>data\<close> is a \<^verbatim>\<open>HexBytes\<close>
  (\<open>Bytes\<close>) in web3 from version 6 on, the versions that have the
  \<^verbatim>\<open>Web3.to_checksum_address\<close> and \<^verbatim>\<open>is_connected\<close> that \<^verbatim>\<open>main\<close> and
  \<^verbatim>\<open>connect\<close> call; in web3 5 it is a hexadecimal string with the prefix \<^verbatim>\<open>0x\<close>
  (\<open>Str\<close>).
\<close>

record log =
  transactionHash :: bytes
  logIndex :: int
  topics :: "bytes list"
  data :: pyvalue

text \<open>
  \<^verbatim>\<open>
  def build_event_leaf(log):
      """
      Build a leaf commitment for an event:
      keccak(txHash[32] || logIndex[8] || topic0[32] || dataKeccak[32])
      """
      txh = bytes.fromhex(log["transactionHash"].hex()[2:])
      log_index = int(log["logIndex"])
      topic0 = bytes.fromhex(log["topics"][0].hex()[2:])
      data_hash = Web3.keccak(bytes.fromhex(log["data"][2:]))
      payload = (txh + log_index.to_bytes(8, "big") + topic0 + data_hash)
      return Web3.keccak(payload)
  \<close>
  The statements run in this order, so the first failing one decides the exception. The
  hash function and the version of hexbytes are arguments.
\<close>

definition build_event_leaf :: "hashfn \<Rightarrow> hexbytes_version \<Rightarrow> log \<Rightarrow> error + bytes" where
  "build_event_leaf keccak ver lg =
     (case bytes_fromhex (slice_from 2 (Str (HexBytes_hex ver (transactionHash lg)))) of
        Inl e \<Rightarrow> Inl e
      | Inr txh \<Rightarrow>
     (let log_index = logIndex lg in
      case getitem (topics lg) 0 of
        Inl e \<Rightarrow> Inl e
      | Inr t0 \<Rightarrow>
     (case bytes_fromhex (slice_from 2 (Str (HexBytes_hex ver t0))) of
        Inl e \<Rightarrow> Inl e
      | Inr topic0 \<Rightarrow>
     (case bytes_fromhex (slice_from 2 (data lg)) of
        Inl e \<Rightarrow> Inl e
      | Inr d \<Rightarrow>
     (let data_hash = keccak d in
      case int_to_bytes log_index 8 of
        Inl e \<Rightarrow> Inl e
      | Inr li \<Rightarrow>
     (let payload = txh @ li @ topic0 @ data_hash
      in Inr (keccak payload)))))))"

section \<open>The caller\<close>

text \<open>
  The part of \<^verbatim>\<open>main\<close> that uses the Merkle engine, from the list of leaves on:
  \<^verbatim>\<open>
  tree = build_merkle_tree(leaves)
  root = merkle_root(tree)
  idx = args.index
  if idx < 0 or idx >= len(leaves):
      print("--index out of range for fetched events.")
      sys.exit(1)
  leaf = leaves[idx]
  proof = merkle_proof(tree, idx)
  ok = verify_proof(leaf, proof, root)
  \<close>
  The result is the root, the proof and the flag that \<^verbatim>\<open>main\<close> prints.
\<close>

definition main_prove ::
  "hashfn \<Rightarrow> bytes list \<Rightarrow> int \<Rightarrow> error + (bytes \<times> proof_step list \<times> bool)" where
  "main_prove keccak leaves idx =
     (case build_merkle_tree keccak leaves of
        Inl e \<Rightarrow> Inl e
      | Inr tree \<Rightarrow>
     (case merkle_root tree of
        Inl e \<Rightarrow> Inl e
      | Inr root \<Rightarrow>
     (if idx < 0 \<or> idx \<ge> int (length leaves) then Inl (SystemExit 1)
      else
     (case getitem leaves idx of
        Inl e \<Rightarrow> Inl e
      | Inr leaf \<Rightarrow>
     (case merkle_proof tree idx of
        Inl e \<Rightarrow> Inl e
      | Inr prf \<Rightarrow> Inr (root, prf, verify_proof keccak leaf prf root))))))"

section \<open>A concrete digest for evaluation\<close>

text \<open>
  Keccak-256 itself is outside the repository. Where a statement has to be evaluated at a
  concrete input, this 32-byte digest stands in for it: byte \<open>i\<close> of the digest is byte
  \<open>i\<close> of the input plus three times byte \<open>32 + i\<close>, the input being extended by
  zeros. On two 32-byte halves it depends on both and on their order.
\<close>

definition toy_keccak :: hashfn where
  "toy_keccak b =
     map (\<lambda>(x, y). x + 3 * y)
       (zip (take 32 (b @ replicate 32 0)) (take 32 (drop 32 b @ replicate 32 0)))"

section \<open>Properties of the loops\<close>

lemma pair_loop_length:
  "length (pair_loop keccak level i nxt) = length nxt + (length level - i + 1) div 2"
proof (induction keccak level i nxt rule: pair_loop.induct)
  case (1 keccak level i nxt)
  show ?case
  proof (cases "i < length level")
    case True
    have "(length level - i + 1) div 2 = (length level - (i + 2) + 1) div 2 + 1"
      using True by arith
    with True "1.IH" show ?thesis
      by (subst pair_loop.simps) (simp add: Let_def)
  next
    case False
    then show ?thesis
      by (subst pair_loop.simps) simp
  qed
qed


lemma getitem_nat: "i < length xs \<Longrightarrow> getitem xs (int i) = Inr (xs ! i)"
  by (simp add: getitem_def)

lemma pad32_long: "32 \<le> length b \<Longrightarrow> pad32 b = b"
  by (simp add: pad32_def)

lemma length_pad32: "length (pad32 b) = max 32 (length b)"
  by (simp add: pad32_def)

lemma pad32_idem: "pad32 (pad32 b) = pad32 b"
  by (simp add: pad32_long length_pad32)

lemma pair_loop_nth:
  "k < length nxt + (length level - i + 1) div 2 \<Longrightarrow>
   pair_loop keccak level i nxt ! k =
     (if k < length nxt then nxt ! k
      else keccak (level ! (i + 2 * (k - length nxt)) @
             (if i + 2 * (k - length nxt) + 1 < length level
              then level ! (i + 2 * (k - length nxt) + 1)
              else level ! (i + 2 * (k - length nxt)))))"
proof (induction keccak level i nxt rule: pair_loop.induct)
  case (1 keccak level i nxt)
  show ?case
  proof (cases "i < length level")
    case True
    have half: "(length level - i + 1) div 2 = (length level - (i + 2) + 1) div 2 + 1"
      using True by arith
    have step: "pair_loop keccak level i nxt =
        pair_loop keccak level (i + 2)
          (nxt @ [keccak (level ! i @ (if i + 1 < length level then level ! (i + 1) else level ! i))])"
      using True by (subst pair_loop.simps) (simp add: Let_def keccak_pair_def)
    have k: "k < length (nxt @ [keccak (level ! i @ (if i + 1 < length level then level ! (i + 1) else level ! i))])
          + (length level - (i + 2) + 1) div 2"
      using "1.prems" half by simp
    consider "k < length nxt" | "k = length nxt" | "length nxt < k" by arith
    then show ?thesis
    proof cases
      case 1
      then show ?thesis
        using "1.IH" [OF True refl refl] k by (simp add: step nth_append keccak_pair_def)
    next
      case 2
      then show ?thesis
        using "1.IH" [OF True refl refl] k by (simp add: step nth_append keccak_pair_def)
    next
      case 3
      then obtain m where m: "k = length nxt + Suc m"
        by (auto dest: less_imp_Suc_add)
      show ?thesis
        using "1.IH" [OF True refl refl] k unfolding m step
        by (simp add: nth_append keccak_pair_def)
    qed
  next
    case False
    with "1.prems" show ?thesis
      by (subst pair_loop.simps) simp
  qed
qed

lemma next_length: "length (pair_loop keccak level 0 []) = (length level + 1) div 2"
  by (simp add: pair_loop_length)

lemma next_shorter: "1 < length level \<Longrightarrow> length (pair_loop keccak level 0 []) < length level"
  unfolding next_length by arith

lemma build_loop_done: "length level \<le> 1 \<Longrightarrow> build_loop keccak level tree = tree"
  by (subst build_loop.simps) simp

lemma build_loop_step:
  "1 < length level \<Longrightarrow>
   build_loop keccak level tree =
     build_loop keccak (pair_loop keccak level 0 []) (tree @ [pair_loop keccak level 0 []])"
  by (subst build_loop.simps) (simp add: Let_def)

lemma build_loop_append: "build_loop keccak level tree = tree @ build_loop keccak level []"
proof (induction "length level" arbitrary: level tree rule: less_induct)
  case less
  show ?case
  proof (cases "1 < length level")
    case True
    define nxt where "nxt = pair_loop keccak level 0 []"
    have shorter: "length nxt < length level"
      using True by (simp add: nxt_def next_shorter)
    have "build_loop keccak level tree = build_loop keccak nxt (tree @ [nxt])"
      using True by (simp add: build_loop_step nxt_def)
    also have "\<dots> = (tree @ [nxt]) @ build_loop keccak nxt []"
      using less [OF shorter] .
    finally have lhs: "build_loop keccak level tree = tree @ nxt # build_loop keccak nxt []"
      by simp
    have "build_loop keccak level [] = build_loop keccak nxt [nxt]"
      using True by (simp add: build_loop_step nxt_def)
    also have "\<dots> = [nxt] @ build_loop keccak nxt []"
      using less [OF shorter] .
    finally show ?thesis using lhs by simp
  next
    case False
    then show ?thesis
      by (simp add: build_loop_done)
  qed
qed

lemma next_nth:
  "k < (length level + 1) div 2 \<Longrightarrow>
   pair_loop keccak level 0 [] ! k =
     keccak (level ! (2 * k) @ (if 2 * k + 1 < length level then level ! (2 * k + 1) else level ! (2 * k)))"
  using pair_loop_nth [of k "[]" level 0 keccak] by simp

text \<open>The tree built from a first level: \<open>build_loop keccak level [level]\<close>.\<close>

lemma levels_single: "length level \<le> 1 \<Longrightarrow> build_loop keccak level [level] = [level]"
  by (simp add: build_loop_done)

lemma levels_step:
  "1 < length level \<Longrightarrow>
   build_loop keccak level [level] =
     level # build_loop keccak (pair_loop keccak level 0 []) [pair_loop keccak level 0 []]"
  using build_loop_append [of keccak "pair_loop keccak level 0 []" "[level, pair_loop keccak level 0 []]"]
        build_loop_append [of keccak "pair_loop keccak level 0 []" "[pair_loop keccak level 0 []]"]
  by (simp add: build_loop_step)

lemma levels_nonempty: "build_loop keccak level [level] \<noteq> []"
  using build_loop_append [of keccak level "[level]"] by simp

lemma levels_hd: "hd (build_loop keccak level [level]) = level"
  using build_loop_append [of keccak level "[level]"] by simp

lemma levels_shape:
  "level \<noteq> [] \<Longrightarrow>
   (\<forall>lvl \<in> set (build_loop keccak level [level]). lvl \<noteq> []) \<and>
   (\<forall>lvl \<in> set (butlast (build_loop keccak level [level])). 2 \<le> length lvl) \<and>
   length (last (build_loop keccak level [level])) = 1 \<and>
   (\<forall>k. Suc k < length (build_loop keccak level [level]) \<longrightarrow>
      length (build_loop keccak level [level] ! Suc k) =
        (length (build_loop keccak level [level] ! k) + 1) div 2)"
proof (induction "length level" arbitrary: level rule: less_induct)
  case less
  show ?case
  proof (cases "1 < length level")
    case False
    with less.prems have "length level = 1"
      by (cases level) auto
    then show ?thesis
      using less.prems by (simp add: levels_single)
  next
    case True
    define nxt where "nxt = pair_loop keccak level 0 []"
    define rest where "rest = build_loop keccak nxt [nxt]"
    have shorter: "length nxt < length level"
      using True by (simp add: nxt_def next_shorter)
    have nxt_len: "length nxt = (length level + 1) div 2"
      by (simp add: nxt_def next_length)
    have nxt_ne: "nxt \<noteq> []"
      using True nxt_len by (cases nxt) auto
    have unfold: "build_loop keccak level [level] = level # rest"
      using True by (simp add: levels_step nxt_def rest_def)
    have rest_ne: "rest \<noteq> []"
      by (simp add: rest_def levels_nonempty)
    have rest0: "rest ! 0 = nxt"
      using levels_hd [of keccak nxt] rest_ne by (simp add: rest_def hd_conv_nth)
    have IH: "(\<forall>lvl \<in> set rest. lvl \<noteq> []) \<and>
       (\<forall>lvl \<in> set (butlast rest). 2 \<le> length lvl) \<and>
       length (last rest) = 1 \<and>
       (\<forall>k. Suc k < length rest \<longrightarrow> length (rest ! Suc k) = (length (rest ! k) + 1) div 2)"
      using less.hyps [OF shorter nxt_ne] by (simp add: rest_def)
    have a: "\<forall>lvl \<in> set (level # rest). lvl \<noteq> []"
      using IH less.prems by simp
    have b: "\<forall>lvl \<in> set (butlast (level # rest)). 2 \<le> length lvl"
      using IH True rest_ne by simp
    have c: "length (last (level # rest)) = 1"
      using IH rest_ne by simp
    have d: "length ((level # rest) ! Suc k) = (length ((level # rest) ! k) + 1) div 2"
      if "Suc k < length (level # rest)" for k
    proof (cases k)
      case 0
      then show ?thesis by (simp add: rest0 nxt_len)
    next
      case (Suc j)
      with that IH show ?thesis by simp
    qed
    show ?thesis
      unfolding unfold using a b c d by blast
  qed
qed

section \<open>Proofs follow the pairing of the builder\<close>

lemma xor_one_even: "even i \<Longrightarrow> int i XOR 1 = int i + 1"
  by (simp add: xor_one_eq)

lemma xor_one_odd: "odd i \<Longrightarrow> int i XOR 1 = int i - 1"
  by (simp add: xor_one_eq)

lemma proof_loop_sound:
  assumes hash: "\<forall>x. length (keccak x) = 32"
  shows "level \<noteq> [] \<Longrightarrow> \<forall>x \<in> set level. 32 \<le> length x \<Longrightarrow> i < length level \<Longrightarrow>
    \<exists>p. proof_loop (butlast (build_loop keccak level [level])) (int i) acc = Inr (acc @ p) \<and>
        length p = length (build_loop keccak level [level]) - 1 \<and>
        verify_loop keccak (level ! i) p = hd (last (build_loop keccak level [level]))"
proof (induction "length level" arbitrary: level i acc rule: less_induct)
  case less
  show ?case
  proof (cases "1 < length level")
    case False
    with less.prems have "length level = 1" "i = 0"
      by (cases level; auto)+
    then show ?thesis
      using less.prems(1) by (simp add: levels_single hd_conv_nth)
  next
    case True
    define nxt where "nxt = pair_loop keccak level 0 []"
    define rest where "rest = build_loop keccak nxt [nxt]"
    have shorter: "length nxt < length level"
      using True by (simp add: nxt_def next_shorter)
    have nxt_len: "length nxt = (length level + 1) div 2"
      by (simp add: nxt_def next_length)
    have nxt_ne: "nxt \<noteq> []"
      using True nxt_len by (cases nxt) auto
    have unfold: "build_loop keccak level [level] = level # rest"
      using True by (simp add: levels_step nxt_def rest_def)
    have rest_ne: "rest \<noteq> []"
      by (simp add: rest_def levels_nonempty)
    have half: "i div 2 < length nxt"
      using less.prems(3) nxt_len by arith
    have nxt_long: "\<forall>x \<in> set nxt. 32 \<le> length x"
    proof
      fix x assume "x \<in> set nxt"
      then obtain k where "k < length nxt" "x = nxt ! k"
        by (auto simp: in_set_conv_nth)
      then show "32 \<le> length x"
        using next_nth [of k level keccak] nxt_len by (simp add: nxt_def hash)
    qed
    define sibling where
      "sibling = (if even i then (if i + 1 < length level then level ! (i + 1) else level ! i)
                  else level ! (i - 1))"
    define pos where "pos = (if even i then ''right'' else ''left'')"
    have sib_long: "32 \<le> length sibling"
      using less.prems(2,3) by (auto simp: sibling_def)
    have step: "proof_loop (level # butlast rest) (int i) acc =
        proof_loop (butlast rest) (int (i div 2)) (acc @ [(sibling, pos)])"
    proof (cases "even i")
      case True
      then obtain j where j: "i = 2 * j" by (auto elim: evenE)
      have x: "int (2 * j) XOR 1 = int (2 * j + 1)"
        using xor_one_even [of "2 * j"] by simp
      have m: "int (2 * j) mod 2 = 0" "int (2 * j) div 2 = int j"
        by simp_all
      have s: "sibling = (if 2 * j + 1 < length level then level ! (2 * j + 1) else level ! (2 * j))"
        by (simp add: sibling_def j)
      have g: "(if int (2 * j + 1) < int (length level) then getitem level (int (2 * j + 1))
                else getitem level (int (2 * j))) = Inr sibling"
        using less.prems(3) getitem_nat [of "2 * j + 1" level] getitem_nat [of "2 * j" level]
        unfolding s j by (simp only: of_nat_less_iff split: if_split) simp
      have "proof_loop (level # butlast rest) (int (2 * j)) acc =
          proof_loop (butlast rest) (int j) (acc @ [(sibling, ''right'')])"
        unfolding proof_loop.simps Let_def x g m by simp
      then show ?thesis
        by (simp add: j pos_def)
    next
      case False
      then obtain j where j: "i = 2 * j + 1" by (auto elim: oddE)
      have x: "int (2 * j + 1) XOR 1 = int (2 * j)"
        using xor_one_odd [of "2 * j + 1"] by simp
      have m: "int (2 * j + 1) mod 2 \<noteq> 0" "int (2 * j + 1) div 2 = int j"
        by presburger+
      have s: "sibling = level ! (2 * j)"
        by (simp add: sibling_def j)
      have g: "(if int (2 * j) < int (length level) then getitem level (int (2 * j))
                else getitem level (int (2 * j + 1))) = Inr sibling"
        using less.prems(3) getitem_nat [of "2 * j" level]
        unfolding s j by simp
      have "proof_loop (level # butlast rest) (int (2 * j + 1)) acc =
          proof_loop (butlast rest) (int j) (acc @ [(sibling, ''left'')])"
        unfolding proof_loop.simps Let_def x g using m by simp
      then show ?thesis
        by (simp add: j pos_def)
    qed
    have node: "nxt ! (i div 2) =
        (if even i then keccak (level ! i @ sibling) else keccak (sibling @ level ! i))"
    proof (cases "even i")
      case True
      then obtain j where j: "i = 2 * j" by (auto elim: evenE)
      have "j < (length level + 1) div 2"
        using less.prems(3) j by arith
      then show ?thesis
        using next_nth [of j level keccak]
        by (simp add: nxt_def sibling_def j)
    next
      case False
      then obtain j where j: "i = 2 * j + 1" by (auto elim: oddE)
      have "j < (length level + 1) div 2"
        using less.prems(3) j by arith
      then show ?thesis
        using next_nth [of j level keccak] less.prems(3)
        by (simp add: nxt_def sibling_def j)
    qed
    obtain p where p:
      "proof_loop (butlast rest) (int (i div 2)) (acc @ [(sibling, pos)]) =
         Inr ((acc @ [(sibling, pos)]) @ p)"
      "length p = length rest - 1"
      "verify_loop keccak (nxt ! (i div 2)) p = hd (last rest)"
      using less.hyps [OF shorter nxt_ne nxt_long half, of "acc @ [(sibling, pos)]"]
      unfolding rest_def by blast
    have "proof_loop (butlast (level # rest)) (int i) acc = Inr (acc @ (sibling, pos) # p)"
      using step p(1) rest_ne by simp
    moreover have "length ((sibling, pos) # p) = length (level # rest) - 1"
      using p(2) rest_ne by (cases rest) auto
    moreover have "verify_loop keccak (level ! i) ((sibling, pos) # p) = hd (last (level # rest))"
      using p(3) rest_ne node sib_long
      by (cases "even i") (simp_all add: pad32_long keccak_pair_def pos_def)
    ultimately show ?thesis
      unfolding unfold by blast
  qed
qed

text \<open>Stepping by two over the indices is pairing up the elements from the left.\<close>

lemma pair_loop_shift:
  "pair_loop keccak (x # y # rest) (i + 2) nxt = pair_loop keccak rest i nxt"
proof (induction keccak rest i nxt rule: pair_loop.induct)
  case (1 keccak rest i nxt)
  show ?case
  proof (cases "i < length rest")
    case True
    have "pair_loop keccak (x # y # rest) (i + 2) nxt =
        pair_loop keccak (x # y # rest) (i + 2 + 2)
          (nxt @ [keccak_pair keccak (rest ! i) (if i + 1 < length rest then rest ! (i + 1) else rest ! i)])"
      using True by (subst pair_loop.simps) (simp add: Let_def)
    also have "\<dots> = pair_loop keccak rest (i + 2)
          (nxt @ [keccak_pair keccak (rest ! i) (if i + 1 < length rest then rest ! (i + 1) else rest ! i)])"
      using "1.IH" [OF True refl refl] .
    also have "\<dots> = pair_loop keccak rest i nxt"
      using True by (subst (2) pair_loop.simps) (simp add: Let_def)
    finally show ?thesis .
  next
    case False
    then show ?thesis
      by (simp add: pair_loop.simps)
  qed
qed

lemma pair_loop_Nil: "pair_loop keccak [] 0 nxt = nxt"
  by (simp add: pair_loop.simps)

lemma pair_loop_single: "pair_loop keccak [x] 0 nxt = nxt @ [keccak (x @ x)]"
  by (simp add: pair_loop.simps keccak_pair_def)

lemma pair_loop_Cons2:
  "pair_loop keccak (x # y # rest) 0 nxt = pair_loop keccak rest 0 (nxt @ [keccak (x @ y)])"
proof -
  have "pair_loop keccak (x # y # rest) 0 nxt =
      pair_loop keccak (x # y # rest) (0 + 2) (nxt @ [keccak (x @ y)])"
    by (subst pair_loop.simps) (simp add: keccak_pair_def)
  then show ?thesis
    by (simp only: pair_loop_shift)
qed

lemmas pair_loop_eval = pair_loop_Nil pair_loop_single pair_loop_Cons2

lemma getitem_last: "xs \<noteq> [] \<Longrightarrow> getitem xs (- 1) = Inr (last xs)"
  by (cases xs rule: rev_cases) (simp_all add: getitem_def nat_diff_distrib')

lemma getitem_0: "xs \<noteq> [] \<Longrightarrow> getitem xs 0 = Inr (hd xs)"
  by (cases xs) (simp_all add: getitem_def)

lemma merkle_root_levels:
  "level \<noteq> [] \<Longrightarrow>
   merkle_root (build_loop keccak level [level]) = Inr (hd (last (build_loop keccak level [level])))"
  using levels_shape [of level keccak] levels_nonempty [of keccak level]
  by (simp add: merkle_root_def getitem_last getitem_0)

lemma toy_keccak_length: "length (toy_keccak x) = 32"
  by (simp add: toy_keccak_def)

section \<open>Properties of the Merkle engine\<close>

text \<open>
  C1. Round-trip inclusion: for every non-empty list of leaves \<open>L\<close> and every index
  \<open>i < length L\<close>, the tree is built, the proof for \<open>i\<close> is derived, the root is read, and
  \<open>verify_proof\<close> of \<open>L ! i\<close> with that proof against that root is true. The hash is any
  function with 32-byte digests, as Keccak-256 is. The leaves need not be 32 bytes long:
  both the builder and the verifier pad them.
\<close>

theorem roundtrip_inclusion:
  assumes hash: "\<forall>x. length (keccak x) = 32"
      and ne: "L \<noteq> []"
      and i: "i < length L"
  shows "\<exists>tree prf root.
           build_merkle_tree keccak L = Inr tree \<and>
           merkle_proof tree (int i) = Inr prf \<and>
           merkle_root tree = Inr root \<and>
           verify_proof keccak (L ! i) prf root"
proof -
  define level where "level = map pad32 L"
  define tree where "tree = build_loop keccak level [level]"
  have level_ne: "level \<noteq> []"
    using ne by (simp add: level_def)
  have long: "\<forall>x \<in> set level. 32 \<le> length x"
    by (auto simp: level_def length_pad32)
  have i': "i < length level"
    using i by (simp add: level_def)
  obtain p where p: "proof_loop (butlast tree) (int i) [] = Inr ([] @ p)"
      "verify_loop keccak (level ! i) p = hd (last tree)"
    using proof_loop_sound [OF hash level_ne long i', where acc = "[]"]
    unfolding tree_def by blast
  have "build_merkle_tree keccak L = Inr tree"
    using ne by (simp add: build_merkle_tree_def Let_def tree_def level_def)
  moreover have "merkle_proof tree (int i) = Inr p"
    using p(1) by (simp add: merkle_proof_def)
  moreover have "merkle_root tree = Inr (hd (last tree))"
    unfolding tree_def by (rule merkle_root_levels [OF level_ne])
  moreover have "verify_proof keccak (L ! i) p (hd (last tree))"
    using p(2) i by (simp add: verify_proof_def level_def)
  ultimately show ?thesis
    by blast
qed

theorem roundtrip_inclusion_witness:
  "(\<forall>x. length (toy_keccak x) = 32) \<and>
   [replicate 32 1, replicate 32 2, replicate 32 3] \<noteq> ([] :: bytes list) \<and>
   2 < length [replicate 32 1, replicate 32 2, replicate 32 (3 :: byte)] \<and>
   (\<exists>tree prf root.
      build_merkle_tree toy_keccak [replicate 32 1, replicate 32 2, replicate 32 3] = Inr tree \<and>
      merkle_proof tree (int 2) = Inr prf \<and>
      merkle_root tree = Inr root \<and>
      verify_proof toy_keccak ([replicate 32 1, replicate 32 2, replicate 32 3] ! 2) prf root)"
  using roundtrip_inclusion [of toy_keccak "[replicate 32 1, replicate 32 2, replicate 32 3]" 2]
  by (simp add: toy_keccak_length)

text \<open>
  C2. Duplicate-last pairing, three leaves: for 32-byte leaves \<open>A\<close>, \<open>B\<close>, \<open>C\<close> the tree
  of \<open>[A, B, C]\<close> has level 1 equal to \<open>[hash (A || B), hash (C || C)]\<close>, its root is
  \<open>hash (hash (A || B) || hash (C || C))\<close>, and the proof for index 2 is
  \<open>[(C, right), (hash (A || B), left)]\<close>. The leaves need not be distinct.
\<close>

theorem three_leaf_tree:
  assumes "length A = 32" and "length B = 32" and "length C = 32"
  shows "build_merkle_tree keccak [A, B, C] =
           Inr [[A, B, C],
                [keccak (A @ B), keccak (C @ C)],
                [keccak (keccak (A @ B) @ keccak (C @ C))]] \<and>
         merkle_root [[A, B, C],
                [keccak (A @ B), keccak (C @ C)],
                [keccak (keccak (A @ B) @ keccak (C @ C))]] =
           Inr (keccak (keccak (A @ B) @ keccak (C @ C))) \<and>
         merkle_proof [[A, B, C],
                [keccak (A @ B), keccak (C @ C)],
                [keccak (keccak (A @ B) @ keccak (C @ C))]] 2 =
           Inr [(C, ''right''), (keccak (A @ B), ''left'')]"
proof -
  have tree: "build_merkle_tree keccak [A, B, C] =
           Inr [[A, B, C],
                [keccak (A @ B), keccak (C @ C)],
                [keccak (keccak (A @ B) @ keccak (C @ C))]]"
    using assms
    by (simp add: build_merkle_tree_def pad32_long build_loop_step build_loop_done pair_loop_eval)
  have root: "merkle_root [[A, B, C],
                [keccak (A @ B), keccak (C @ C)],
                [keccak (keccak (A @ B) @ keccak (C @ C))]] =
           Inr (keccak (keccak (A @ B) @ keccak (C @ C)))"
    by (simp add: merkle_root_def getitem_def)
  have x: "(2 :: int) XOR 1 = 3" "(1 :: int) XOR 1 = 0"
    by simp_all
  have steps: "merkle_proof [[A, B, C],
                [keccak (A @ B), keccak (C @ C)],
                [keccak (keccak (A @ B) @ keccak (C @ C))]] 2 =
           Inr [(C, ''right''), (keccak (A @ B), ''left'')]"
    by (simp add: merkle_proof_def getitem_def x)
  show ?thesis
    using tree root steps by simp
qed

theorem three_leaf_tree_witness:
  "length (replicate 32 (1 :: byte)) = 32 \<and> length (replicate 32 (2 :: byte)) = 32 \<and>
   length (replicate 32 (3 :: byte)) = 32 \<and>
   merkle_proof [[replicate 32 1, replicate 32 2, replicate 32 3],
       [toy_keccak (replicate 32 1 @ replicate 32 2), toy_keccak (replicate 32 3 @ replicate 32 3)],
       [toy_keccak (toy_keccak (replicate 32 1 @ replicate 32 2) @
                    toy_keccak (replicate 32 3 @ replicate 32 3))]] 2 =
     Inr [(replicate 32 3, ''right''), (toy_keccak (replicate 32 1 @ replicate 32 2), ''left'')]"
  using three_leaf_tree [of "replicate 32 1" "replicate 32 2" "replicate 32 3" toy_keccak]
  by simp

text \<open>
  C4. Empty input rejected: \<open>build_merkle_tree\<close> of the empty list raises
  \<^verbatim>\<open>ValueError("No leaves to build a tree")\<close>, the source's form of the error
  \<open>EmptyInput\<close>; no tree is returned.
\<close>

theorem empty_input_rejected:
  "build_merkle_tree keccak [] = Inl (ValueError ''No leaves to build a tree'')"
  by (simp add: build_merkle_tree_def)

theorem empty_input_rejected_witness:
  "build_merkle_tree toy_keccak [] = Inl (ValueError ''No leaves to build a tree'')"
  by (rule empty_input_rejected [of toy_keccak])

text \<open>
  C7. Single-leaf tree: for a 32-byte value \<open>A\<close> the tree of \<open>[A]\<close> is the single level
  \<open>[A]\<close>, its root is \<open>A\<close> itself, the proof for index 0 is empty, and
  \<open>verify_proof A [] A\<close> is true.
\<close>

theorem single_leaf_tree:
  assumes "length A = 32"
  shows "build_merkle_tree keccak [A] = Inr [[A]] \<and>
         merkle_root [[A]] = Inr A \<and>
         merkle_proof [[A]] 0 = Inr [] \<and>
         verify_proof keccak A [] A"
  using assms
  by (simp add: build_merkle_tree_def pad32_long build_loop_done merkle_root_def getitem_def
      merkle_proof_def verify_proof_def)

theorem single_leaf_tree_witness:
  "length (replicate 32 (7 :: byte)) = 32 \<and>
   build_merkle_tree toy_keccak [replicate 32 7] = Inr [[replicate 32 7]] \<and>
   merkle_root [[replicate 32 (7 :: byte)]] = Inr (replicate 32 7) \<and>
   merkle_proof [[replicate 32 (7 :: byte)]] 0 = Inr [] \<and>
   verify_proof toy_keccak (replicate 32 7) [] (replicate 32 7)"
  using single_leaf_tree [of "replicate 32 7" toy_keccak]
  by simp

text \<open>
  C8. Tree shape: for every non-empty list of leaves the tree is built; its level 0 has
  one node per leaf; every later level has \<open>ceil (len (previous level) / 2)\<close> nodes; no
  level is empty; and the last level has exactly one node, which is what \<open>merkle_root\<close>
  returns.
\<close>

theorem tree_shape:
  assumes "L \<noteq> []"
  shows "\<exists>tree. build_merkle_tree keccak L = Inr tree \<and>
           tree \<noteq> [] \<and>
           length (tree ! 0) = length L \<and>
           (\<forall>k. Suc k < length tree \<longrightarrow>
              length (tree ! Suc k) = (length (tree ! k) + 1) div 2) \<and>
           (\<forall>lvl \<in> set tree. lvl \<noteq> []) \<and>
           length (last tree) = 1 \<and>
           merkle_root tree = Inr (hd (last tree))"
proof -
  define level where "level = map pad32 L"
  define tree where "tree = build_loop keccak level [level]"
  have level_ne: "level \<noteq> []"
    using assms by (simp add: level_def)
  have built: "build_merkle_tree keccak L = Inr tree"
    using assms by (simp add: build_merkle_tree_def Let_def tree_def level_def)
  have ne: "tree \<noteq> []"
    by (simp add: tree_def levels_nonempty)
  have "tree ! 0 = level"
    using levels_hd [of keccak level] ne by (simp add: tree_def hd_conv_nth)
  then have first: "length (tree ! 0) = length L"
    by (simp add: level_def)
  have shape: "(\<forall>lvl \<in> set tree. lvl \<noteq> []) \<and> length (last tree) = 1 \<and>
      (\<forall>k. Suc k < length tree \<longrightarrow> length (tree ! Suc k) = (length (tree ! k) + 1) div 2)"
    using levels_shape [OF level_ne, of keccak] by (simp add: tree_def)
  have root: "merkle_root tree = Inr (hd (last tree))"
    unfolding tree_def by (rule merkle_root_levels [OF level_ne])
  show ?thesis
    using built ne first shape root by blast
qed

theorem tree_shape_witness:
  "[replicate 32 1, replicate 32 2, replicate 32 3] \<noteq> ([] :: bytes list) \<and>
   (\<exists>tree. build_merkle_tree toy_keccak [replicate 32 1, replicate 32 2, replicate 32 3] = Inr tree \<and>
      tree \<noteq> [] \<and>
      length (tree ! 0) = length [replicate 32 1, replicate 32 2, replicate 32 (3 :: byte)] \<and>
      (\<forall>k. Suc k < length tree \<longrightarrow>
         length (tree ! Suc k) = (length (tree ! k) + 1) div 2) \<and>
      (\<forall>lvl \<in> set tree. lvl \<noteq> []) \<and>
      length (last tree) = 1 \<and>
      merkle_root tree = Inr (hd (last tree)))"
  using tree_shape [of "[replicate 32 1, replicate 32 2, replicate 32 3]" toy_keccak]
  by simp

text \<open>
  C9. No truncation of oversized leaves: a byte string \<open>b\<close> longer than 32 bytes is
  returned unchanged by \<open>pad32\<close>; a list of leaves that holds \<open>b\<close> at index \<open>i\<close> is
  accepted by \<open>build_merkle_tree\<close>, and node \<open>i\<close> of level 0 is \<open>b\<close> itself, longer
  than 32 bytes; for the two leaves \<open>[b, c]\<close> the hash input of the parent is
  \<open>b || pad32 c\<close>, longer than 64 bytes.
\<close>

theorem oversized_leaf_kept:
  assumes "32 < length b"
  shows "pad32 b = b \<and>
         (\<forall>L i. i < length L \<and> L ! i = b \<longrightarrow>
            (\<exists>tree. build_merkle_tree keccak L = Inr tree \<and>
               tree ! 0 = map pad32 L \<and> tree ! 0 ! i = b \<and> 32 < length (tree ! 0 ! i))) \<and>
         build_merkle_tree keccak [b, c] = Inr [[b, pad32 c], [keccak (b @ pad32 c)]] \<and>
         64 < length (b @ pad32 c)"
proof -
  have pad: "pad32 b = b"
    using assms by (simp add: pad32_long)
  have level0: "\<exists>tree. build_merkle_tree keccak L = Inr tree \<and>
       tree ! 0 = map pad32 L \<and> tree ! 0 ! i = b \<and> 32 < length (tree ! 0 ! i)"
    if "i < length L" and "L ! i = b" for L i
  proof -
    have ne: "L \<noteq> []"
      using that by auto
    have "build_loop keccak (map pad32 L) [map pad32 L] ! 0 = map pad32 L"
      using levels_hd [of keccak "map pad32 L"] levels_nonempty [of keccak "map pad32 L"]
      by (simp add: hd_conv_nth)
    then show ?thesis
      using ne that pad assms by (simp add: build_merkle_tree_def Let_def)
  qed
  have two: "build_merkle_tree keccak [b, c] = Inr [[b, pad32 c], [keccak (b @ pad32 c)]]"
    by (simp add: build_merkle_tree_def pad build_loop_step build_loop_done pair_loop_eval)
  have long: "64 < length (b @ pad32 c)"
    using assms by (simp add: length_pad32)
  show ?thesis
    using pad level0 two long by blast
qed

theorem oversized_leaf_kept_witness:
  "32 < length (replicate 33 (1 :: byte)) \<and>
   pad32 (replicate 33 1) = replicate 33 1 \<and>
   build_merkle_tree toy_keccak [replicate 33 1, [2]] =
     Inr [[replicate 33 1, pad32 [2]], [toy_keccak (replicate 33 1 @ pad32 [2])]]"
  using oversized_leaf_kept [of "replicate 33 1" toy_keccak "[2]"]
  by simp

lemma verify_loop_append:
  "verify_loop keccak cur (xs @ ys) = verify_loop keccak (verify_loop keccak cur xs) ys"
  by (induction xs arbitrary: cur) (auto simp: Let_def)

lemma verify_loop_related:
  "list_all2 (\<lambda>(s, p) (s', p'). (s' = s \<or> s' = pad32 s) \<and> ((p' = ''right'') = (p = ''right''))) xs ys \<Longrightarrow>
   verify_loop keccak cur ys = verify_loop keccak cur xs"
proof (induction xs ys arbitrary: cur rule: list_all2_induct)
  case Nil
  show ?case by simp
next
  case (Cons x xs y ys)
  obtain s p s' p' where xy: "x = (s, p)" "y = (s', p')"
    by (cases x, cases y) auto
  have "pad32 s' = pad32 s" and "(p' = ''right'') = (p = ''right'')"
    using Cons.hyps(1) by (auto simp: xy pad32_idem)
  then show ?case
    using Cons.IH by (simp add: xy Let_def)
qed

lemma toy_keccak_pair:
  "length l = 32 \<Longrightarrow> length r = 32 \<Longrightarrow>
   toy_keccak (l @ r) = map (\<lambda>(x, y). x + 3 * y) (zip l r)"
  by (simp add: toy_keccak_def)

lemma toy_keccak_last:
  "toy_keccak (replicate 31 0 @ a # replicate 31 0 @ [b]) = replicate 31 0 @ [a + 3 * b]"
  using toy_keccak_pair [of "replicate 31 0 @ [a]" "replicate 31 0 @ [b]"] by simp

text \<open>
  C10. \<open>verify_proof\<close> left-pads every sibling with zero bytes to 32 bytes before
  hashing and compares the position with \<^verbatim>\<open>"right"\<close> only. The padded form of \<open>s\<close> is
  written out: \<open>32 - length s\<close> zero bytes followed by \<open>s\<close>, which is 32 bytes long when
  \<open>s\<close> is shorter. So a proof in which any siblings are replaced by their padded forms,
  and any positions other than \<^verbatim>\<open>"right"\<close> by other strings that are not \<^verbatim>\<open>"right"\<close>,
  gives the same result; a step whose position is not \<^verbatim>\<open>"right"\<close> is hashed as
  \<open>hash (padded sibling || cur)\<close>, exactly as a step with position \<^verbatim>\<open>"left"\<close>; a step with
  position \<^verbatim>\<open>"right"\<close> is hashed as \<open>hash (cur || padded sibling)\<close>; and the empty proof
  compares the padded leaf with the root.
\<close>

theorem verify_proof_padding_position:
  "(list_all2 (\<lambda>(s, p) (s', p'). (s' = s \<or> s' = replicate (32 - length s) 0 @ s) \<and>
        ((p' = ''right'') = (p = ''right'')))
      prf prf' \<longrightarrow>
    verify_proof keccak leaf prf' root = verify_proof keccak leaf prf root) \<and>
   verify_proof keccak leaf (pre @ (sib, pos) # post) root =
     verify_proof keccak leaf (pre @ (replicate (32 - length sib) 0 @ sib, pos) # post) root \<and>
   length (replicate (32 - length sib) 0 @ sib) = max 32 (length sib) \<and>
   (pos \<noteq> ''right'' \<longrightarrow>
     verify_proof keccak leaf (pre @ (sib, pos) # post) root =
       verify_proof keccak leaf (pre @ (sib, ''left'') # post) root \<and>
     verify_loop keccak cur ((sib, pos) # post) =
       verify_loop keccak (keccak ((replicate (32 - length sib) 0 @ sib) @ cur)) post) \<and>
   verify_loop keccak cur ((sib, ''right'') # post) =
     verify_loop keccak (keccak (cur @ replicate (32 - length sib) 0 @ sib)) post \<and>
   verify_proof keccak leaf [] root = (replicate (32 - length leaf) 0 @ leaf = root)"
proof -
  have zpad: "replicate (32 - length x) 0 @ x = pad32 x" for x
    by (simp add: pad32_def)
  show ?thesis
    unfolding zpad
    using verify_loop_related [of "prf" "prf'" keccak "pad32 leaf"]
    by (simp add: verify_proof_def verify_loop_append pad32_idem Let_def keccak_pair_def
        length_pad32)
qed

theorem verify_proof_padding_position_witness:
  "list_all2 (\<lambda>(s, p) (s', p'). (s' = s \<or> s' = replicate (32 - length s) 0 @ s) \<and>
        ((p' = ''right'') = (p = ''right'')))
      [([1 :: byte], ''up''), ([2], ''right'')]
      [(replicate 31 0 @ [1], ''left''), ([2], ''right'')] \<and>
   ''up'' \<noteq> ''right'' \<and>
   verify_proof toy_keccak [9] [([1], ''up''), ([2], ''right'')] (replicate 31 0 @ [34]) \<and>
   verify_proof toy_keccak [9] [(replicate 31 0 @ [1], ''left''), ([2], ''right'')]
     (replicate 31 0 @ [34]) \<and>
   verify_proof toy_keccak [9] ([] @ ([1], ''left'') # [([2], ''right'')])
     (replicate 31 0 @ [34]) \<and>
   \<not> verify_proof toy_keccak [9] [([1], ''right''), ([2], ''right'')] (replicate 31 0 @ [34])"
proof -
  have related: "list_all2
      (\<lambda>(s, p) (s', p'). (s' = s \<or> s' = replicate (32 - length s) 0 @ s) \<and>
        ((p' = ''right'') = (p = ''right'')))
      [([1 :: byte], ''up''), ([2], ''right'')]
      [(replicate 31 0 @ [1], ''left''), ([2], ''right'')]"
    by simp
  have other: "''up'' \<noteq> ''right''"
    by simp
  have accepted: "verify_proof toy_keccak [9] [([1], ''up''), ([2], ''right'')]
      (replicate 31 0 @ [34])"
    by (simp add: verify_proof_def pad32_def keccak_pair_def toy_keccak_last)
  have accepted': "verify_proof toy_keccak [9] ([] @ ([1], ''up'') # [([2], ''right'')])
      (replicate 31 0 @ [34])"
    using accepted by simp
  have refused: "\<not> verify_proof toy_keccak [9] [([1], ''right''), ([2], ''right'')]
      (replicate 31 0 @ [34])"
    by (simp add: verify_proof_def pad32_def keccak_pair_def toy_keccak_last)
  note inst = verify_proof_padding_position [of "[([1], ''up''), ([2], ''right'')]"
        "[(replicate 31 0 @ [1], ''left''), ([2], ''right'')]" toy_keccak "[9]"
        "replicate 31 0 @ [34]" "[]" "[1]" "''up''" "[([2], ''right'')]" "[]"]
  have padded: "verify_proof toy_keccak [9] [(replicate 31 0 @ [1], ''left''), ([2], ''right'')]
      (replicate 31 0 @ [34])"
    using mp [OF conjunct1 [OF inst] related] accepted by (rule iffD2)
  have left: "verify_proof toy_keccak [9] ([] @ ([1], ''left'') # [([2], ''right'')])
      (replicate 31 0 @ [34])"
    using conjunct1 [OF mp [OF conjunct1 [OF conjunct2 [OF conjunct2 [OF conjunct2 [OF inst]]]] other]]
      accepted' by (rule iffD1)
  show ?thesis
    by (intro conjI related other accepted padded left refused)
qed

section \<open>Indices outside the leaves\<close>

lemma proof_loop_minus_one:
  "\<forall>lvl \<in> set lvls. 2 \<le> length lvl \<Longrightarrow>
   \<exists>p. proof_loop lvls (- 1) acc = Inr (acc @ p) \<and> length p = length lvls"
proof (induction lvls arbitrary: acc)
  case Nil
  show ?case by simp
next
  case (Cons level rest)
  have x: "(- 1 :: int) XOR 1 = - 2"
    by simp
  have len: "2 \<le> length level"
    using Cons.prems by simp
  then have g: "getitem level (- 2) = Inr (level ! (length level - 2))"
    by (auto simp: getitem_def Let_def nat_diff_distrib')
  have m: "(- 1 :: int) mod 2 \<noteq> 0" "(- 1 :: int) div 2 = - 1"
    by simp_all
  obtain p where p: "proof_loop rest (- 1) (acc @ [(level ! (length level - 2), ''left'')]) =
      Inr ((acc @ [(level ! (length level - 2), ''left'')]) @ p)" "length p = length rest"
    using Cons.IH [of "acc @ [(level ! (length level - 2), ''left'')]"] Cons.prems by auto
  have "proof_loop (level # rest) (- 1) acc =
      Inr (acc @ (level ! (length level - 2), ''left'') # p)"
    unfolding proof_loop.simps Let_def x using len g m p(1) by simp
  then show ?case
    using p(2) by (intro exI [of _ "(level ! (length level - 2), ''left'') # p"]) simp
qed

lemma proof_loop_in_range:
  "\<forall>k. Suc k < length lvls \<longrightarrow> length (lvls ! Suc k) = (length (lvls ! k) + 1) div 2 \<Longrightarrow>
   lvls \<noteq> [] \<longrightarrow> i < length (hd lvls) \<or> (i = length (hd lvls) \<and> odd i) \<Longrightarrow>
   \<exists>p. proof_loop lvls (int i) acc = Inr (acc @ p) \<and> length p = length lvls"
proof (induction lvls arbitrary: i acc)
  case Nil
  show ?case by simp
next
  case (Cons level rest)
  have i: "i < length level \<or> (i = length level \<and> odd i)"
    using Cons.prems(2) by simp
  have chain: "\<forall>k. Suc k < length rest \<longrightarrow> length (rest ! Suc k) = (length (rest ! k) + 1) div 2"
    using Cons.prems(1) by auto
  have nxt: "rest \<noteq> [] \<longrightarrow> i div 2 < length (hd rest)"
  proof
    assume ne: "rest \<noteq> []"
    then have "length (hd rest) = (length level + 1) div 2"
      using Cons.prems(1) [rule_format, of 0] by (simp add: hd_conv_nth)
    then show "i div 2 < length (hd rest)"
      using i by (auto elim!: oddE)
  qed
  have "\<exists>sibling pos. proof_loop (level # rest) (int i) acc =
      proof_loop rest (int (i div 2)) (acc @ [(sibling, pos)])"
  proof (cases "even i")
    case True
    then obtain j where j: "i = 2 * j" by (auto elim: evenE)
    have x: "int (2 * j) XOR 1 = int (2 * j + 1)"
      using xor_one_even [of "2 * j"] by simp
    have m: "int (2 * j) mod 2 = 0" "int (2 * j) div 2 = int j"
      by simp_all
    have lt: "2 * j < length level"
      using i True j by simp
    have g: "\<exists>s. (if int (2 * j + 1) < int (length level) then getitem level (int (2 * j + 1))
              else getitem level (int (2 * j))) = Inr s"
      using lt getitem_nat [of "2 * j + 1" level] getitem_nat [of "2 * j" level]
      by (simp only: of_nat_less_iff split: if_split) simp
    then obtain s where s: "(if int (2 * j + 1) < int (length level)
              then getitem level (int (2 * j + 1))
              else getitem level (int (2 * j))) = Inr s" ..
    have "proof_loop (level # rest) (int (2 * j)) acc =
        proof_loop rest (int j) (acc @ [(s, ''right'')])"
      unfolding proof_loop.simps Let_def x s m by simp
    then show ?thesis
      unfolding j by auto
  next
    case False
    then obtain j where j: "i = 2 * j + 1" by (auto elim: oddE)
    have x: "int (2 * j + 1) XOR 1 = int (2 * j)"
      using xor_one_odd [of "2 * j + 1"] by simp
    have m: "int (2 * j + 1) mod 2 \<noteq> 0" "int (2 * j + 1) div 2 = int j"
      by presburger+
    have lt: "2 * j < length level"
      using i j by auto
    have g: "(if int (2 * j) < int (length level) then getitem level (int (2 * j))
              else getitem level (int (2 * j + 1))) = Inr (level ! (2 * j))"
      using lt getitem_nat [of "2 * j" level] by simp
    have "proof_loop (level # rest) (int (2 * j + 1)) acc =
        proof_loop rest (int j) (acc @ [(level ! (2 * j), ''left'')])"
      unfolding proof_loop.simps Let_def x g using m by simp
    then show ?thesis
      unfolding j by auto
  qed
  then obtain sibling pos where step: "proof_loop (level # rest) (int i) acc =
      proof_loop rest (int (i div 2)) (acc @ [(sibling, pos)])"
    by blast
  obtain p where p: "proof_loop rest (int (i div 2)) (acc @ [(sibling, pos)]) =
      Inr ((acc @ [(sibling, pos)]) @ p)" "length p = length rest"
    using Cons.IH [OF chain, of "i div 2" "acc @ [(sibling, pos)]"] nxt by auto
  show ?case
    using step p by (intro exI [of _ "(sibling, pos) # p"]) simp
qed

lemma proof_loop_past_end:
  "even i \<Longrightarrow> length level \<le> i \<Longrightarrow> proof_loop (level # rest) (int i) acc = Inl IndexError"
proof -
  assume e: "even i" and ge: "length level \<le> i"
  have x: "int i XOR 1 = int (i + 1)"
    using xor_one_even [OF e] by simp
  have g: "getitem level (int i) = Inl IndexError"
    using ge by (simp add: getitem_def)
  show ?thesis
    unfolding proof_loop.simps Let_def x using ge g by simp
qed

text \<open>
  C3, as stated, fails: \<open>merkle_proof\<close> has no range check. On the tree of two leaves the
  index \<open>-1\<close> yields a proof, and on the tree of one leaf the index \<open>1 = n\<close> yields the
  empty proof.
\<close>

theorem proof_index_counterexample:
  "build_merkle_tree toy_keccak [replicate 32 1, replicate 32 2] =
     Inr [[replicate 32 1, replicate 32 2], [toy_keccak (replicate 32 1 @ replicate 32 2)]] \<and>
   merkle_proof [[replicate 32 1, replicate 32 2], [toy_keccak (replicate 32 1 @ replicate 32 2)]] (- 1) =
     Inr [(replicate 32 1, ''left'')] \<and>
   build_merkle_tree toy_keccak [replicate 32 1] = Inr [[replicate 32 1]] \<and>
   merkle_proof [[replicate 32 1]] 1 = Inr []"
proof -
  have x: "(- 1 :: int) XOR 1 = - 2"
    by simp
  have a: "build_merkle_tree toy_keccak [replicate 32 1, replicate 32 2] =
     Inr [[replicate 32 1, replicate 32 2], [toy_keccak (replicate 32 1 @ replicate 32 2)]]"
    by (simp add: build_merkle_tree_def pad32_long build_loop_step build_loop_done pair_loop_eval)
  have b: "merkle_proof [[replicate 32 1, replicate 32 2],
        [toy_keccak (replicate 32 1 @ replicate 32 2)]] (- 1) =
     Inr [(replicate 32 1, ''left'')]"
    by (simp add: merkle_proof_def getitem_def x)
  have c: "build_merkle_tree toy_keccak [replicate 32 1] = Inr [[replicate 32 1]]"
    by (simp add: build_merkle_tree_def pad32_long build_loop_done)
  have d: "merkle_proof [[replicate 32 (1 :: byte)]] 1 = Inr []"
    by (simp add: merkle_proof_def)
  show ?thesis
    by (intro conjI a b c d)
qed

text \<open>
  C3, amended. \<open>merkle_proof\<close> does not check its index. For the tree built from \<open>n > 0\<close>
  leaves, \<open>merkle_proof tree (-1)\<close> returns a proof with one step per level below the
  root; \<open>merkle_proof tree n\<close> returns such a proof when \<open>n\<close> is odd and raises Python's
  \<^verbatim>\<open>IndexError\<close> when \<open>n\<close> is even. The range check is the caller's: \<open>main\<close> exits
  with status 1 for every index below 0 or at least \<open>n\<close>, before \<open>merkle_proof\<close> is
  called.
\<close>

theorem proof_index_unchecked:
  assumes "L \<noteq> []"
  shows "\<exists>tree. build_merkle_tree keccak L = Inr tree \<and>
           (\<exists>p. merkle_proof tree (- 1) = Inr p \<and> length p = length tree - 1) \<and>
           (odd (length L) \<longrightarrow>
              (\<exists>p. merkle_proof tree (int (length L)) = Inr p \<and> length p = length tree - 1)) \<and>
           (even (length L) \<longrightarrow> merkle_proof tree (int (length L)) = Inl IndexError) \<and>
           main_prove keccak L (- 1) = Inl (SystemExit 1) \<and>
           main_prove keccak L (int (length L)) = Inl (SystemExit 1) \<and>
           (\<forall>idx. idx < 0 \<or> int (length L) \<le> idx \<longrightarrow>
              main_prove keccak L idx = Inl (SystemExit 1))"
proof -
  define level where "level = map pad32 L"
  define tree where "tree = build_loop keccak level [level]"
  have level_ne: "level \<noteq> []"
    using assms by (simp add: level_def)
  have len: "length level = length L"
    by (simp add: level_def)
  have built: "build_merkle_tree keccak L = Inr tree"
    using assms by (simp add: build_merkle_tree_def Let_def tree_def level_def)
  have ne: "tree \<noteq> []"
    by (simp add: tree_def levels_nonempty)
  have hd_tree: "hd tree = level"
    by (simp add: tree_def levels_hd)
  have shape: "\<forall>lvl \<in> set (butlast tree). 2 \<le> length lvl"
      "\<forall>k. Suc k < length tree \<longrightarrow> length (tree ! Suc k) = (length (tree ! k) + 1) div 2"
    using levels_shape [OF level_ne, of keccak] by (simp_all add: tree_def)
  have chain: "\<forall>k. Suc k < length (butlast tree) \<longrightarrow>
      length (butlast tree ! Suc k) = (length (butlast tree ! k) + 1) div 2"
    using shape(2) by (simp add: nth_butlast)
  have hd_butlast: "butlast tree \<noteq> [] \<longrightarrow> hd (butlast tree) = level"
    using hd_tree ne by (cases tree) (auto split: if_splits)
  have minus: "\<exists>p. merkle_proof tree (- 1) = Inr p \<and> length p = length tree - 1"
    using proof_loop_minus_one [OF shape(1), of "[]"] by (simp add: merkle_proof_def)
  have odd_n: "\<exists>p. merkle_proof tree (int (length L)) = Inr p \<and> length p = length tree - 1"
    if "odd (length L)"
    using proof_loop_in_range [OF chain, of "length L" "[]"] hd_butlast that len
    by (simp add: merkle_proof_def)
  have even_n: "merkle_proof tree (int (length L)) = Inl IndexError" if "even (length L)"
  proof -
    have "1 < length level"
      using that assms len by (cases L) (auto elim: evenE)
    then have "tree = level # build_loop keccak (pair_loop keccak level 0 []) [pair_loop keccak level 0 []]"
      by (simp add: tree_def levels_step)
    then obtain rest where "butlast tree = level # rest"
      using levels_nonempty [of keccak "pair_loop keccak level 0 []"] by simp
    then show ?thesis
      using proof_loop_past_end [OF that, of level rest "[]"] len by (simp add: merkle_proof_def)
  qed
  have root: "merkle_root tree = Inr (hd (last tree))"
    unfolding tree_def by (rule merkle_root_levels [OF level_ne])
  have gate: "main_prove keccak L idx = Inl (SystemExit 1)"
    if "idx < 0 \<or> int (length L) \<le> idx" for idx
    using that by (auto simp: main_prove_def built root)
  have gate_minus: "main_prove keccak L (- 1) = Inl (SystemExit 1)"
    by (rule gate) simp
  have gate_n: "main_prove keccak L (int (length L)) = Inl (SystemExit 1)"
    by (rule gate) simp
  show ?thesis
    using built minus odd_n even_n gate gate_minus gate_n by blast
qed

theorem proof_index_unchecked_witness:
  "[replicate 32 1, replicate 32 2] \<noteq> ([] :: bytes list) \<and>
   (\<exists>tree. build_merkle_tree toy_keccak [replicate 32 1, replicate 32 2] = Inr tree \<and>
      (\<exists>p. merkle_proof tree (- 1) = Inr p \<and> length p = length tree - 1) \<and>
      merkle_proof tree 2 = Inl IndexError) \<and>
   main_prove toy_keccak [replicate 32 1, replicate 32 2] (- 1) = Inl (SystemExit 1) \<and>
   main_prove toy_keccak [replicate 32 1, replicate 32 2] 2 = Inl (SystemExit 1) \<and>
   main_prove toy_keccak [replicate 32 1, replicate 32 2] (- 7) = Inl (SystemExit 1) \<and>
   main_prove toy_keccak [replicate 32 1, replicate 32 2] 9 = Inl (SystemExit 1)"
  using proof_index_unchecked [of "[replicate 32 1, replicate 32 2]" toy_keccak]
  by auto

section \<open>Properties of the leaf encoder\<close>

lemma hexdigit_cases:
  assumes "n < 16"
  shows "hexval (hexdigit n) = Some n \<and> \<not> isspace (hexdigit n)"
  using assms by (simp add: hexdigit_def hexval_def isspace_def Let_def)

lemma byte_nibbles: "of_nat (16 * (unat w div 16) + unat w mod 16) = (w :: byte)"
  by simp

lemma bytes_hex_Cons:
  "bytes_hex (w # b) = hexdigit (unat w div 16) # hexdigit (unat w mod 16) # bytes_hex b"
  by (simp add: bytes_hex_def)

lemma fromhex_hex: "fromhex_digits (bytes_hex b) = Inr b"
proof (induction b)
  case Nil
  show ?case by (simp add: bytes_hex_def)
next
  case (Cons w b)
  have "unat w < 2 ^ LENGTH(8)"
    by (rule unsigned_less)
  then have "unat w < 256"
    by simp
  then have "unat w div 16 < 16"
    by arith
  then have hi: "hexval (hexdigit (unat w div 16)) = Some (unat w div 16)"
      "\<not> isspace (hexdigit (unat w div 16))"
    using hexdigit_cases [of "unat w div 16"] by simp_all
  have lo: "hexval (hexdigit (unat w mod 16)) = Some (unat w mod 16)"
    using hexdigit_cases [of "unat w mod 16"] by simp
  show ?case
    unfolding bytes_hex_Cons fromhex_digits.simps using hi lo Cons.IH
    by (simp only: if_False prod.case option.case sum.case byte_nibbles)
qed

text \<open>
  What \<^verbatim>\<open>bytes.fromhex(h.hex()[2:])\<close> gives for a \<^verbatim>\<open>HexBytes\<close> value \<open>h\<close>: \<open>h\<close> itself
  where \<^verbatim>\<open>hex()\<close> has the prefix, \<open>h\<close> without its first byte where it has none.
\<close>

lemma fromhex_HexBytes_digits:
  "fromhex_digits (drop 2 (HexBytes_hex ver b)) =
     Inr (case ver of Prefixed \<Rightarrow> b | Plain \<Rightarrow> drop 1 b)"
proof (cases ver)
  case Prefixed
  then show ?thesis
    by (simp add: HexBytes_hex_def fromhex_hex)
next
  case Plain
  have "drop 2 (bytes_hex b) = bytes_hex (drop 1 b)"
    by (cases b) (simp_all add: bytes_hex_def)
  with Plain show ?thesis
    by (simp add: HexBytes_hex_def fromhex_hex)
qed

lemma fromhex_HexBytes:
  "bytes_fromhex (slice_from 2 (Str (HexBytes_hex ver b))) =
     Inr (case ver of Prefixed \<Rightarrow> b | Plain \<Rightarrow> drop 1 b)"
  by (simp add: fromhex_HexBytes_digits)

lemma fromhex_digits_error: "fromhex_digits s = Inl e \<Longrightarrow> e = fromhex_error"
  by (induction s arbitrary: e rule: fromhex_digits.induct)
    (auto split: if_splits option.splits sum.splits)

lemma length_big_endian: "length (big_endian k n) = k"
  by (induction k arbitrary: n) simp_all

lemma int_from_bytes_snoc: "int_from_bytes (b @ [w]) = int_from_bytes b * 256 + uint w"
  by (simp add: int_from_bytes_def)

lemma from_big_endian: "int_from_bytes (big_endian k n) = n mod 256 ^ k"
proof (induction k arbitrary: n)
  case 0
  show ?case by (simp add: int_from_bytes_def)
next
  case (Suc k)
  have "uint (word_of_int n :: byte) = n mod 256"
    by (simp add: uint_word_of_int_eq take_bit_eq_mod)
  then have "int_from_bytes (big_endian (Suc k) n) = (n div 256 mod 256 ^ k) * 256 + n mod 256"
    by (simp add: int_from_bytes_snoc Suc.IH)
  also have "\<dots> = n mod (256 * 256 ^ k)"
    using zmod_zmult2_eq [of "256 ^ k" n 256] by simp
  finally show ?case by simp
qed

lemma to_bytes_roundtrip:
  "0 \<le> n \<Longrightarrow> n < 2 ^ (8 * len) \<Longrightarrow>
   int_to_bytes n len = Inr (big_endian len n) \<and> int_from_bytes (big_endian len n) = n"
proof -
  assume "0 \<le> n" and "n < 2 ^ (8 * len)"
  moreover have "(256 :: int) ^ len = 2 ^ (8 * len)"
    by (simp add: power_mult)
  ultimately show ?thesis
    by (simp add: int_to_bytes_def from_big_endian)
qed

lemma build_event_leaf_eq:
  "build_event_leaf keccak ver lg =
     (if topics lg = [] then Inl IndexError
      else (case data lg of
              Bytes b \<Rightarrow> Inl TypeError
            | Str s \<Rightarrow>
                (case fromhex_digits (drop 2 s) of
                   Inl e \<Rightarrow> Inl fromhex_error
                 | Inr d \<Rightarrow>
                     if logIndex lg < 0 \<or> 2 ^ 64 \<le> logIndex lg then Inl OverflowError
                     else Inr (keccak
                       ((case ver of Prefixed \<Rightarrow> transactionHash lg
                         | Plain \<Rightarrow> drop 1 (transactionHash lg)) @
                        big_endian 8 (logIndex lg) @
                        (case ver of Prefixed \<Rightarrow> hd (topics lg)
                         | Plain \<Rightarrow> drop 1 (hd (topics lg))) @
                        keccak d)))))"
proof (cases "topics lg")
  case Nil
  then show ?thesis
    by (simp add: build_event_leaf_def fromhex_HexBytes_digits getitem_def)
next
  case (Cons t0 ts)
  show ?thesis
  proof (cases "data lg")
    case (Bytes b)
    with Cons show ?thesis
      by (simp add: build_event_leaf_def fromhex_HexBytes_digits getitem_def)
  next
    case (Str s)
    show ?thesis
    proof (cases "fromhex_digits (drop 2 s)")
      case (Inl e)
      then have "e = fromhex_error"
        by (rule fromhex_digits_error)
      with Cons Str Inl show ?thesis
        by (simp add: build_event_leaf_def fromhex_HexBytes_digits getitem_def)
    next
      case (Inr d)
      with Cons Str show ?thesis
        by (cases ver)
          (simp_all add: build_event_leaf_def fromhex_HexBytes_digits getitem_def
            int_to_bytes_def Let_def)
    qed
  qed
qed


text \<open>
  The path the docstring describes: where \<^verbatim>\<open>HexBytes.hex()\<close> has the prefix and
  \<^verbatim>\<open>data\<close> is a hexadecimal string, a record with a 32-byte transaction hash \<open>t\<close>, a
  log index \<open>n\<close> with \<open>0 \<le> n < 2^64\<close>, a 32-byte first topic \<open>t0\<close> and the payload
  \<open>d\<close> is encoded as the hash of the 104 bytes
  \<open>t || n as 8 big-endian bytes || t0 || hash d\<close>.
\<close>

lemma leaf_layout_prefixed_str:
  assumes hash: "\<forall>x. length (keccak x) = 32"
      and tx: "length t = 32"
      and topic: "length t0 = 32"
      and idx: "0 \<le> n" "n < 2 ^ 64"
  shows "build_event_leaf keccak Prefixed
           \<lparr>transactionHash = t, logIndex = n, topics = t0 # ts,
            data = Str (''0x'' @ bytes_hex d)\<rparr> =
           Inr (keccak (t @ big_endian 8 n @ t0 @ keccak d)) \<and>
         length (t @ big_endian 8 n @ t0 @ keccak d) = 104 \<and>
         length (big_endian 8 n) = 8 \<and>
         int_from_bytes (big_endian 8 n) = n \<and>
         length (keccak (t @ big_endian 8 n @ t0 @ keccak d)) = 32"
proof -
  have enc: "build_event_leaf keccak Prefixed
           \<lparr>transactionHash = t, logIndex = n, topics = t0 # ts,
            data = Str (''0x'' @ bytes_hex d)\<rparr> =
           Inr (keccak (t @ big_endian 8 n @ t0 @ keccak d))"
    using idx by (simp add: build_event_leaf_eq fromhex_hex)
  have len: "length (t @ big_endian 8 n @ t0 @ keccak d) = 104"
    using hash tx topic by (simp add: length_big_endian)
  have inverse: "int_from_bytes (big_endian 8 n) = n"
    using to_bytes_roundtrip [of n 8] idx by simp
  show ?thesis
    using enc len inverse hash by (simp add: length_big_endian)
qed

text \<open>
  C5. The claim is the layout of the docstring: the hash of the 104 bytes
  \<open>txHash(32) || logIndex as 8 big-endian bytes || topic0(32) || hash(data)(32)\<close> for
  every well-formed record. The code does not deliver it on the records it receives.
  Where \<^verbatim>\<open>data\<close> is a bytes value, as \<^verbatim>\<open>get_logs\<close> returns it in web3 from version 6
  on, \<^verbatim>\<open>bytes.fromhex(log["data"][2:])\<close> raises \<^verbatim>\<open>TypeError\<close> for every record that has
  a topic, whatever the version of hexbytes. Where \<^verbatim>\<open>HexBytes.hex()\<close> has no prefix, the
  slice \<^verbatim>\<open>[2:]\<close> cuts the first byte off the transaction hash and off the first topic,
  so that a record with a string for \<^verbatim>\<open>data\<close> and two 32-byte hashes is encoded
  from a buffer of 102 bytes.
\<close>

theorem leaf_encoding_defects:
  "build_event_leaf keccak ver
     \<lparr>transactionHash = t, logIndex = n, topics = t0 # ts, data = Bytes d\<rparr> = Inl TypeError \<and>
   build_event_leaf keccak Plain
     \<lparr>transactionHash = replicate 32 1, logIndex = 5, topics = [replicate 32 2],
      data = Str (''0x'' @ bytes_hex d)\<rparr> =
     Inr (keccak (replicate 31 1 @ big_endian 8 5 @ replicate 31 2 @ keccak d)) \<and>
   ((\<forall>x. length (keccak x) = 32) \<longrightarrow>
      length (replicate 31 1 @ big_endian 8 5 @ replicate 31 2 @ keccak d) = 102)"
  by (simp add: build_event_leaf_eq fromhex_hex length_big_endian)

theorem leaf_encoding_defects_witness:
  "build_event_leaf toy_keccak Prefixed
     \<lparr>transactionHash = replicate 32 1, logIndex = 5, topics = [replicate 32 2],
      data = Bytes [3, 4]\<rparr> = Inl TypeError \<and>
   build_event_leaf toy_keccak Plain
     \<lparr>transactionHash = replicate 32 1, logIndex = 5, topics = [replicate 32 2],
      data = Bytes [3, 4]\<rparr> = Inl TypeError \<and>
   (\<forall>x. length (toy_keccak x) = 32) \<and>
   length (replicate 31 1 @ big_endian 8 5 @ replicate 31 2 @ toy_keccak [3, 4]) = 102"
  using leaf_encoding_defects [of toy_keccak Prefixed "replicate 32 1" 5 "replicate 32 2" "[]" "[3, 4]"]
    leaf_encoding_defects [of toy_keccak Plain "replicate 32 1" 5 "replicate 32 2" "[]" "[3, 4]"]
  by (simp add: toy_keccak_length)

text \<open>
  C6, as stated, fails. The lengths of the transaction hash and of the first topic are
  never checked: a record with a 31-byte transaction hash, a 33-byte first topic and a
  string for \<^verbatim>\<open>data\<close> is encoded, with either version of hexbytes. And there is an error
  path that is not a malformed record: a record with two 32-byte hashes, log index 0 and
  a bytes value for \<^verbatim>\<open>data\<close> raises \<^verbatim>\<open>TypeError\<close>.
\<close>

theorem leaf_encoder_counterexample:
  "build_event_leaf toy_keccak Prefixed
     \<lparr>transactionHash = replicate 31 1, logIndex = 0, topics = [replicate 33 2],
      data = Str ''0x''\<rparr> =
     Inr (toy_keccak (replicate 31 1 @ big_endian 8 0 @ replicate 33 2 @ toy_keccak [])) \<and>
   build_event_leaf toy_keccak Plain
     \<lparr>transactionHash = replicate 31 1, logIndex = 0, topics = [replicate 33 2],
      data = Str ''0x''\<rparr> =
     Inr (toy_keccak (replicate 30 1 @ big_endian 8 0 @ replicate 32 2 @ toy_keccak [])) \<and>
   build_event_leaf toy_keccak Prefixed
     \<lparr>transactionHash = replicate 32 1, logIndex = 0, topics = [replicate 32 2],
      data = Bytes []\<rparr> = Inl TypeError"
  by (simp add: build_event_leaf_eq)

text \<open>
  C6, amended, for a record whose \<^verbatim>\<open>data\<close> is a string \<open>s\<close>. \<open>build_event_leaf\<close> fails
  exactly when the list of topics is empty (\<^verbatim>\<open>IndexError\<close>), \<^verbatim>\<open>bytes.fromhex\<close> rejects
  \<open>s\<close> after its first two characters (\<^verbatim>\<open>ValueError\<close>), or the log index is negative or
  does not fit in 8 bytes (\<^verbatim>\<open>OverflowError\<close>); the first of these, in this order, decides
  the exception. The lengths of the transaction hash and of the first topic are not
  checked: no record is rejected for them, and where \<^verbatim>\<open>HexBytes.hex()\<close> has the prefix
  the record is encoded as
  \<open>hash (txHash || logIndex as 8 big-endian bytes || topic0 || hash data)\<close> whatever their
  lengths.
\<close>

theorem leaf_encoder_error_paths:
  "data lg = Str s \<longrightarrow>
   ((\<exists>e. build_event_leaf keccak ver lg = Inl e) \<longleftrightarrow>
      (topics lg = [] \<or> (\<exists>e. fromhex_digits (drop 2 s) = Inl e) \<or>
       logIndex lg < 0 \<or> 2 ^ 64 \<le> logIndex lg)) \<and>
   (topics lg = [] \<longrightarrow> build_event_leaf keccak ver lg = Inl IndexError) \<and>
   (topics lg \<noteq> [] \<and> (\<exists>e. fromhex_digits (drop 2 s) = Inl e) \<longrightarrow>
      build_event_leaf keccak ver lg =
        Inl (ValueError ''non-hexadecimal number found in fromhex() arg'')) \<and>
   (topics lg \<noteq> [] \<and> fromhex_digits (drop 2 s) = Inr d \<and>
    (logIndex lg < 0 \<or> 2 ^ 64 \<le> logIndex lg) \<longrightarrow>
      build_event_leaf keccak ver lg = Inl OverflowError) \<and>
   (topics lg = t0 # ts \<and> fromhex_digits (drop 2 s) = Inr d \<and>
    0 \<le> logIndex lg \<and> logIndex lg < 2 ^ 64 \<longrightarrow>
      (\<exists>payload. build_event_leaf keccak ver lg = Inr (keccak payload)) \<and>
      build_event_leaf keccak Prefixed lg =
        Inr (keccak (transactionHash lg @ big_endian 8 (logIndex lg) @ t0 @ keccak d)))"
  by (auto simp: build_event_leaf_eq fromhex_error_def split: sum.splits)


theorem leaf_encoder_error_paths_witness:
  "build_event_leaf toy_keccak Prefixed
     \<lparr>transactionHash = replicate 31 1, logIndex = 7, topics = [replicate 33 2],
      data = Str ''0x''\<rparr> =
     Inr (toy_keccak (replicate 31 1 @ big_endian 8 7 @ replicate 33 2 @ toy_keccak [])) \<and>
   build_event_leaf toy_keccak Plain
     \<lparr>transactionHash = replicate 31 1, logIndex = - 1, topics = [replicate 33 2],
      data = Str ''0x''\<rparr> = Inl OverflowError \<and>
   build_event_leaf toy_keccak Prefixed
     \<lparr>transactionHash = replicate 32 1, logIndex = 7, topics = [replicate 32 2],
      data = Str ''0xzz''\<rparr> =
     Inl (ValueError ''non-hexadecimal number found in fromhex() arg'') \<and>
   build_event_leaf toy_keccak Prefixed
     \<lparr>transactionHash = replicate 32 1, logIndex = 7, topics = [],
      data = Str ''0x''\<rparr> = Inl IndexError"
proof -
  have digits: "fromhex_digits (drop 2 ''0x'') = Inr []"
    by simp
  have junk: "\<exists>e. fromhex_digits (drop 2 ''0xzz'') = Inl e"
    by (simp add: hexval_def isspace_def)
  have encoded: "build_event_leaf toy_keccak Prefixed
     \<lparr>transactionHash = replicate 31 1, logIndex = 7, topics = [replicate 33 2],
      data = Str ''0x''\<rparr> =
     Inr (toy_keccak (replicate 31 1 @ big_endian 8 7 @ replicate 33 2 @ toy_keccak []))"
    using digits leaf_encoder_error_paths [where keccak = toy_keccak and ver = Prefixed
        and lg = "\<lparr>transactionHash = replicate 31 1, logIndex = 7, topics = [replicate 33 2],
          data = Str ''0x''\<rparr>"
        and s = "''0x''" and d = "[]" and ?t0.0 = "replicate 33 2" and ts = "[]"]
    by simp
  have overflow: "build_event_leaf toy_keccak Plain
     \<lparr>transactionHash = replicate 31 1, logIndex = - 1, topics = [replicate 33 2],
      data = Str ''0x''\<rparr> = Inl OverflowError"
    using digits leaf_encoder_error_paths [where keccak = toy_keccak and ver = Plain
        and lg = "\<lparr>transactionHash = replicate 31 1, logIndex = - 1, topics = [replicate 33 2],
          data = Str ''0x''\<rparr>"
        and s = "''0x''" and d = "[]" and ?t0.0 = "replicate 33 2" and ts = "[]"]
    by simp
  have rejected: "build_event_leaf toy_keccak Prefixed
     \<lparr>transactionHash = replicate 32 1, logIndex = 7, topics = [replicate 32 2],
      data = Str ''0xzz''\<rparr> =
     Inl (ValueError ''non-hexadecimal number found in fromhex() arg'')"
    using junk leaf_encoder_error_paths [where keccak = toy_keccak and ver = Prefixed
        and lg = "\<lparr>transactionHash = replicate 32 1, logIndex = 7, topics = [replicate 32 2],
          data = Str ''0xzz''\<rparr>"
        and s = "''0xzz''" and d = "[]" and ?t0.0 = "replicate 32 2" and ts = "[]"]
    by simp
  have no_topic: "build_event_leaf toy_keccak Prefixed
     \<lparr>transactionHash = replicate 32 1, logIndex = 7, topics = [],
      data = Str ''0x''\<rparr> = Inl IndexError"
    using leaf_encoder_error_paths [where keccak = toy_keccak and ver = Prefixed
        and lg = "\<lparr>transactionHash = replicate 32 1, logIndex = 7, topics = [],
          data = Str ''0x''\<rparr>"
        and s = "''0x''" and d = "[]" and ?t0.0 = "replicate 32 2" and ts = "[]"]
    by simp
  show ?thesis
    by (intro conjI encoded overflow rejected no_topic)
qed

end
